theory Spec2Isabelle
  imports Complex_Main "HOL-Library.AList" "HOL-Library.Sublist"
begin

section \<open>JSON values as the Python program sees them\<close>

text \<open>
  \<^verbatim>\<open>response.json()\<close> yields Python values: \<^verbatim>\<open>None\<close>, \<^verbatim>\<open>bool\<close>, \<^verbatim>\<open>int\<close>,
  \<^verbatim>\<open>float\<close>, \<^verbatim>\<open>str\<close>, \<^verbatim>\<open>list\<close> and \<^verbatim>\<open>dict\<close>. A dict is an association list in
  insertion order (its keys are distinct in every value Python can build, see \<open>wf_json\<close>).
  Python's \<^verbatim>\<open>None\<close> is both JSON \<^verbatim>\<open>null\<close> and the "nothing" that the program's functions
  return, so both are \<open>JNull\<close>. Floats are kept abstract (type \<open>'f\<close>); the two things the
  program does with one (render it with \<^verbatim>\<open>str\<close>, test its truth value) are passed
  as a record of operations. Strings are lists of characters, a character read as a
  code point below 256.
\<close>

datatype 'f json =
    JNull
  | JBool bool
  | JInt int
  | JFloat 'f
  | JStr string
  | JList "'f json list"
  | JDict "(string \<times> 'f json) list"

record 'f pyfloat =
  float_repr :: "'f \<Rightarrow> string"
  float_bool :: "'f \<Rightarrow> bool"

datatype error = AttributeError

fun wf_json :: "'f json \<Rightarrow> bool" where
  "wf_json (JList xs) = (\<forall>x \<in> set xs. wf_json x)"
| "wf_json (JDict kvs) = (distinct (map fst kvs) \<and> (\<forall>v \<in> snd ` set kvs. wf_json v))"
| "wf_json _ = True"

subsection \<open>Python built-ins used by the program\<close>

text \<open>\<^verbatim>\<open>isinstance(x, list)\<close>, \<^verbatim>\<open>isinstance(x, dict)\<close>.\<close>

fun is_list :: "'f json \<Rightarrow> bool" where
  "is_list (JList _) = True"
| "is_list _ = False"

fun is_dict :: "'f json \<Rightarrow> bool" where
  "is_dict (JDict _) = True"
| "is_dict _ = False"

text \<open>\<^verbatim>\<open>d.get(k, default)\<close> on a dict; \<^verbatim>\<open>k in d\<close>; \<^verbatim>\<open>d[k]\<close> where \<open>k\<close> is known to be in \<open>d\<close>.\<close>

definition dict_get :: "(string \<times> 'f json) list \<Rightarrow> string \<Rightarrow> 'f json \<Rightarrow> 'f json" where
  "dict_get kvs k dflt = (case map_of kvs k of None \<Rightarrow> dflt | Some v \<Rightarrow> v)"

definition dict_has :: "(string \<times> 'f json) list \<Rightarrow> string \<Rightarrow> bool" where
  "dict_has kvs k = (map_of kvs k \<noteq> None)"

definition dict_item :: "(string \<times> 'f json) list \<Rightarrow> string \<Rightarrow> 'f json" where
  "dict_item kvs k = dict_get kvs k JNull"

text \<open>
  \<^verbatim>\<open>result.get(key, {})\<close> on an arbitrary value: only a dict has the attribute
  \<^verbatim>\<open>get\<close>; on a list, string, number, bool or \<^verbatim>\<open>None\<close> the attribute lookup raises
  \<^verbatim>\<open>AttributeError\<close>.
\<close>

fun attr_get :: "'f json \<Rightarrow> string \<Rightarrow> error + 'f json" where
  "attr_get (JDict kvs) key = Inr (dict_get kvs key (JDict []))"
| "attr_get _ key = Inl AttributeError"

text \<open>\<^verbatim>\<open>s.split(c)\<close>: cuts at every occurrence of \<open>c\<close>; never returns the empty list.\<close>

fun split :: "char \<Rightarrow> string \<Rightarrow> string list" where
  "split c [] = [[]]"
| "split c (x # xs) =
     (if x = c then [] # split c xs
      else (x # hd (split c xs)) # tl (split c xs))"

text \<open>\<^verbatim>\<open>s.index(c)\<close> for a character that occurs in \<open>s\<close>; the slice \<^verbatim>\<open>s[i:j]\<close> for
  \<open>0 \<le> i\<close>, \<open>0 \<le> j\<close> (empty when \<open>j \<le> i\<close>).\<close>

definition index :: "string \<Rightarrow> char \<Rightarrow> nat" where
  "index s c = length (takeWhile (\<lambda>x. x \<noteq> c) s)"

definition slice :: "string \<Rightarrow> nat \<Rightarrow> nat \<Rightarrow> string" where
  "slice s i j = take (j - i) (drop i s)"

text \<open>
  \<^verbatim>\<open>int(s)\<close> on a string, base 10: surrounding whitespace is stripped, one sign
  is allowed, then decimal digits, single underscores allowed between digits. Anything
  else raises \<^verbatim>\<open>ValueError\<close>, here \<open>None\<close>. (The interpreter's configurable limit on the
  number of digits is not modelled.)
\<close>

definition is_space :: "char \<Rightarrow> bool" where
  "is_space c = (of_char c \<in> {9, 10, 11, 12, 13, 32, 133, 160 :: nat})"

definition is_digit :: "char \<Rightarrow> bool" where
  "is_digit c = (48 \<le> (of_char c :: nat) \<and> (of_char c :: nat) \<le> 57)"

definition digit_val :: "char \<Rightarrow> nat" where
  "digit_val c = of_char c - 48"

fun parse_digits :: "nat \<Rightarrow> string \<Rightarrow> nat option" where
  "parse_digits acc [] = Some acc"
| "parse_digits acc [c] = (if is_digit c then Some (acc * 10 + digit_val c) else None)"
| "parse_digits acc (c # d # r) =
     (if is_digit c then parse_digits (acc * 10 + digit_val c) (d # r)
      else if c = CHR ''_'' \<and> is_digit d then parse_digits acc (d # r)
      else None)"

definition parse_nat :: "string \<Rightarrow> nat option" where
  "parse_nat s = (case s of [] \<Rightarrow> None
                  | c # r \<Rightarrow> if is_digit c then parse_digits 0 s else None)"

definition strip :: "string \<Rightarrow> string" where
  "strip s = rev (dropWhile is_space (rev (dropWhile is_space s)))"

definition py_int :: "string \<Rightarrow> int option" where
  "py_int s =
     (case strip s of
        [] \<Rightarrow> None
      | c # r \<Rightarrow>
          if c = CHR ''-'' then map_option (\<lambda>n. - int n) (parse_nat r)
          else if c = CHR ''+'' then map_option int (parse_nat r)
          else map_option int (parse_nat (c # r)))"

text \<open>
  \<^verbatim>\<open>str(x)\<close> and \<^verbatim>\<open>repr(x)\<close>. They differ on strings only: \<^verbatim>\<open>str\<close> of a string
  is the string, \<^verbatim>\<open>repr\<close> quotes and escapes it (a single quote unless the string has a
  single and no double quote; backslash and the quote escaped; tab, newline, return as
  \<^verbatim>\<open>\t \n \r\<close>; other non-printable characters as \<^verbatim>\<open>\xNN\<close>). A list or dict renders its
  members with \<^verbatim>\<open>repr\<close>, separated by a comma and a space.
\<close>

fun str_nat :: "nat \<Rightarrow> string" where
  "str_nat n =
     (if n < 10 then [char_of (48 + n)]
      else str_nat (n div 10) @ [char_of (48 + n mod 10)])"

declare str_nat.simps [simp del]

definition str_int :: "int \<Rightarrow> string" where
  "str_int i = (if i < 0 then CHR ''-'' # str_nat (nat (- i)) else str_nat (nat i))"

definition hex_digit :: "nat \<Rightarrow> char" where
  "hex_digit n = ''0123456789abcdef'' ! n"

definition is_printable :: "char \<Rightarrow> bool" where
  "is_printable c =
     (let n = (of_char c :: nat)
      in (32 \<le> n \<and> n < 127) \<or> (161 \<le> n \<and> n \<noteq> 173))"

definition repr_char :: "char \<Rightarrow> char \<Rightarrow> string" where
  "repr_char quote c =
     (if c = quote \<or> c = CHR 0x5C then [CHR 0x5C, c]
      else if c = CHR 0x09 then [CHR 0x5C, CHR ''t'']
      else if c = CHR 0x0A then [CHR 0x5C, CHR ''n'']
      else if c = CHR 0x0D then [CHR 0x5C, CHR ''r'']
      else if \<not> is_printable c then
        [CHR 0x5C, CHR ''x'', hex_digit (of_char c div 16), hex_digit (of_char c mod 16)]
      else [c])"

definition repr_str :: "string \<Rightarrow> string" where
  "repr_str s =
     (let quote = (if CHR 0x27 \<in> set s \<and> CHR 0x22 \<notin> set s then CHR 0x22 else CHR 0x27)
      in [quote] @ concat (map (repr_char quote) s) @ [quote])"

fun py_repr :: "'f pyfloat \<Rightarrow> 'f json \<Rightarrow> string"
  and repr_elems :: "'f pyfloat \<Rightarrow> 'f json list \<Rightarrow> string"
  and repr_items :: "'f pyfloat \<Rightarrow> (string \<times> 'f json) list \<Rightarrow> string"
where
  "py_repr F JNull = ''None''"
| "py_repr F (JBool b) = (if b then ''True'' else ''False'')"
| "py_repr F (JInt i) = str_int i"
| "py_repr F (JFloat x) = float_repr F x"
| "py_repr F (JStr s) = repr_str s"
| "py_repr F (JList xs) = ''['' @ repr_elems F xs @ '']''"
| "py_repr F (JDict kvs) = ''{'' @ repr_items F kvs @ ''}''"
| "repr_elems F [] = []"
| "repr_elems F [x] = py_repr F x"
| "repr_elems F (x # y # xs) = py_repr F x @ '', '' @ repr_elems F (y # xs)"
| "repr_items F [] = []"
| "repr_items F [(k, v)] = repr_str k @ '': '' @ py_repr F v"
| "repr_items F ((k, v) # kv # kvs) =
     repr_str k @ '': '' @ py_repr F v @ '', '' @ repr_items F (kv # kvs)"

definition py_str :: "'f pyfloat \<Rightarrow> 'f json \<Rightarrow> string" where
  "py_str F x = (case x of JStr s \<Rightarrow> s | _ \<Rightarrow> py_repr F x)"

text \<open>The truth value of a value (\<^verbatim>\<open>if x:\<close>), and of an optional string.\<close>

fun py_bool :: "'f pyfloat \<Rightarrow> 'f json \<Rightarrow> bool" where
  "py_bool F JNull = False"
| "py_bool F (JBool b) = b"
| "py_bool F (JInt i) = (i \<noteq> 0)"
| "py_bool F (JFloat x) = float_bool F x"
| "py_bool F (JStr s) = (s \<noteq> [])"
| "py_bool F (JList xs) = (xs \<noteq> [])"
| "py_bool F (JDict kvs) = (kvs \<noteq> [])"

definition opt_bool :: "string option \<Rightarrow> bool" where
  "opt_bool s = (s \<noteq> None \<and> s \<noteq> Some [])"

section \<open>The path filter\<close>

text \<open>
  \<^verbatim>\<open>_apply_path_filter\<close> (lines 125-165). \<open>path_step\<close> is the body of the
  \<^verbatim>\<open>for part in parts\<close> loop on the loop's state \<^verbatim>\<open>result\<close>: it ends in \<^verbatim>\<open>continue\<close>
  or at the end of the body (\<open>Continue\<close>, with the new \<^verbatim>\<open>result\<close>), in a \<^verbatim>\<open>return\<close>
  (\<open>Return\<close>) or in an exception that nothing catches (\<open>Raise\<close>). \<open>path_loop\<close> runs the
  body over the parts and returns \<^verbatim>\<open>result\<close> after the last one.
\<close>

datatype 'f ctl = Continue "'f json" | Return "'f json" | Raise error

definition path_step :: "'f json \<Rightarrow> string \<Rightarrow> 'f ctl" where
  "path_step result part =
     (if CHR ''['' \<in> set part \<and> CHR '']'' \<in> set part then
        (let key = take (index part CHR ''['') part;
             index_part = slice part (index part CHR ''['' + 1) (index part CHR '']'')
         in case (if key \<noteq> [] then attr_get result key else Inr result) of
              Inl e \<Rightarrow> Raise e
            | Inr result \<Rightarrow>
                if index_part = ''*'' then
                  (if is_list result then Continue result else Return (JDict []))
                else
                  (case py_int index_part of
                     None \<Rightarrow> Return (JDict [])
                   | Some idx \<Rightarrow>
                       (case result of
                          JList xs \<Rightarrow>
                            if 0 \<le> idx \<and> idx < int (length xs)
                            then Continue (xs ! nat idx)
                            else Return (JDict [])
                        | _ \<Rightarrow> Return (JDict []))))
      else
        (case result of
           JDict kvs \<Rightarrow> Continue (dict_get kvs part (JDict []))
         | _ \<Rightarrow> Return (JDict [])))"

fun path_loop :: "'f json \<Rightarrow> string list \<Rightarrow> error + 'f json" where
  "path_loop result [] = Inr result"
| "path_loop result (part # parts) =
     (case path_step result part of
        Continue result' \<Rightarrow> path_loop result' parts
      | Return r \<Rightarrow> Inr r
      | Raise e \<Rightarrow> Inl e)"

definition apply_path_filter :: "'f json \<Rightarrow> string \<Rightarrow> error + 'f json" where
  "apply_path_filter data path = path_loop data (split CHR ''.'' path)"

section \<open>The key filter\<close>

text \<open>
  The watcher object, as far as filtering reads it (\<^verbatim>\<open>__init__\<close>, lines 49-51).
\<close>

record watcher =
  filter_path :: "string option"
  filter_key :: "string option"
  filter_value :: "string option"

text \<open>
  The test \<^verbatim>\<open>value is None or str(x) == value\<close> of lines 103, 111 and 180, and the test
  of lines 101-105 on a list item: a dict that has the key and whose value matches.
\<close>

definition value_matches :: "'f pyfloat \<Rightarrow> string option \<Rightarrow> 'f json \<Rightarrow> bool" where
  "value_matches F value x = (case value of None \<Rightarrow> True | Some s \<Rightarrow> py_str F x = s)"

fun item_matches :: "'f pyfloat \<Rightarrow> string \<Rightarrow> string option \<Rightarrow> 'f json \<Rightarrow> bool" where
  "item_matches F key value (JDict kvs) =
     (dict_has kvs key \<and> value_matches F value (dict_item kvs key))"
| "item_matches F key value _ = False"

text \<open>
  \<^verbatim>\<open>_find_and_filter_key\<close> (lines 167-195). The two \<^verbatim>\<open>for\<close> loops carry \<^verbatim>\<open>result\<close>
  as their state: \<^verbatim>\<open>result[k] = filtered\<close> is \<open>AList.update\<close>,
  \<^verbatim>\<open>result.append(filtered)\<close> appends. When the key is in the dict but its value does
  not match, line 180 falls through to the loop of line 183.
\<close>

function (sequential) find_and_filter_key :: "'f pyfloat \<Rightarrow> 'f json \<Rightarrow> string \<Rightarrow> string option \<Rightarrow> 'f json"
  and find_items ::
    "'f pyfloat \<Rightarrow> (string \<times> 'f json) list \<Rightarrow> (string \<times> 'f json) list \<Rightarrow> string \<Rightarrow> string option
       \<Rightarrow> (string \<times> 'f json) list"
  and find_elems ::
    "'f pyfloat \<Rightarrow> 'f json list \<Rightarrow> 'f json list \<Rightarrow> string \<Rightarrow> string option \<Rightarrow> 'f json list"
where
  "find_and_filter_key F (JDict kvs) key value =
     (if dict_has kvs key \<and> value_matches F value (dict_item kvs key)
      then JDict [(key, dict_item kvs key)]
      else (let result = find_items F [] kvs key value
            in if result \<noteq> [] then JDict result else JNull))"
| "find_and_filter_key F (JList xs) key value =
     (let result = find_elems F [] xs key value
      in if result \<noteq> [] then JList result else JNull)"
| "find_and_filter_key F JNull key value = JNull"
| "find_and_filter_key F (JBool b) key value = JNull"
| "find_and_filter_key F (JInt i) key value = JNull"
| "find_and_filter_key F (JFloat x) key value = JNull"
| "find_and_filter_key F (JStr s) key value = JNull"
| "find_items F result [] key value = result"
| "find_items F result ((k, v) # kvs) key value =
     (let filtered = find_and_filter_key F v key value
      in find_items F (if py_bool F filtered then AList.update k filtered result else result)
           kvs key value)"
| "find_elems F result [] key value = result"
| "find_elems F result (item # items) key value =
     (let filtered = find_and_filter_key F item key value
      in find_elems F (if py_bool F filtered then result @ [filtered] else result)
           items key value)"
  by pat_completeness auto

termination
  by (relation "measure (\<lambda>x. case x of
         Inl (F, d, k, v) \<Rightarrow> size d
       | Inr (Inl (F, r, kvs, k, v)) \<Rightarrow> size_list (size_prod (\<lambda>_. 0) size) kvs
       | Inr (Inr (F, r, xs, k, v)) \<Rightarrow> size_list size xs)") simp_all

text \<open>
  \<^verbatim>\<open>filter_json\<close> (lines 79-123). \<open>filter_items\<close> is the loop of lines 99-106 with
  \<^verbatim>\<open>filtered\<close> as its state.
\<close>

fun filter_items ::
  "'f pyfloat \<Rightarrow> string \<Rightarrow> string option \<Rightarrow> 'f json list \<Rightarrow> 'f json list \<Rightarrow> 'f json list"
where
  "filter_items F key value filtered [] = filtered"
| "filter_items F key value filtered (item # items) =
     filter_items F key value
       (if item_matches F key value item then filtered @ [item] else filtered) items"

definition filter_json :: "'f pyfloat \<Rightarrow> watcher \<Rightarrow> 'f json \<Rightarrow> error + 'f json" where
  "filter_json F self data =
     (if \<not> (opt_bool (filter_path self) \<or> opt_bool (filter_key self)) then Inr data
      else
        case (if opt_bool (filter_path self)
              then apply_path_filter data (the (filter_path self))
              else Inr data) of
          Inl e \<Rightarrow> Inl e
        | Inr result \<Rightarrow>
            (let key = the (filter_key self); value = filter_value self
             in Inr
               (if opt_bool (filter_key self) \<and> is_list result then
                  (case result of
                     JList items \<Rightarrow> JList (filter_items F key value [] items)
                   | _ \<Rightarrow> result)
                else if opt_bool (filter_key self) \<and> is_dict result then
                  (case result of
                     JDict kvs \<Rightarrow>
                       if dict_has kvs key then
                         (if value_matches F value (dict_item kvs key)
                          then JDict [(key, dict_item kvs key)]
                          else JDict [])
                       else find_and_filter_key F result key value
                   | _ \<Rightarrow> result)
                else result)))"

section \<open>The watch loop\<close>

text \<open>
  \<^verbatim>\<open>display_diff\<close> (lines 284-365) filters both values and then either shows the
  current one as initial data (\<open>InitialData\<close>, lines 296-311) or computes
  \<^verbatim>\<open>DeepDiff(previous_filtered, current_filtered)\<close> and renders it (\<open>Compared\<close>, lines
  313-365). What is printed is left out; what is kept is which values it is computed from.
  The previous value is filtered only when it is truthy (line 293).
\<close>

datatype 'f shown = InitialData "'f json" | Compared "'f json" "'f json"

definition display_diff ::
  "'f pyfloat \<Rightarrow> watcher \<Rightarrow> 'f json \<Rightarrow> 'f json \<Rightarrow> error + 'f shown" where
  "display_diff F self current previous =
     (case filter_json F self current of
        Inl e \<Rightarrow> Inl e
      | Inr current_filtered \<Rightarrow>
          (case (if py_bool F previous then filter_json F self previous else Inr JNull) of
             Inl e \<Rightarrow> Inl e
           | Inr previous_filtered \<Rightarrow>
               if previous_filtered = JNull then Inr (InitialData current_filtered)
               else Inr (Compared previous_filtered current_filtered)))"

text \<open>
  The cache file (\<^verbatim>\<open>storage_file\<close>): missing, holding a JSON value, or unreadable.
  \<^verbatim>\<open>load_previous\<close> (lines 212-226) returns \<^verbatim>\<open>None\<close> unless the file holds a value.
  \<^verbatim>\<open>save_previous\<close> (lines 197-210) catches every exception of the write; whether the
  write succeeds is the environment's choice \<open>io\<close>: \<open>None\<close> when it does, \<open>Some left\<close> when
  it fails and leaves the file as \<open>left\<close>.
\<close>

datatype 'f stored = Missing | Holds "'f json" | Corrupt

fun load_previous :: "'f stored \<Rightarrow> 'f json" where
  "load_previous (Holds data) = data"
| "load_previous _ = JNull"

definition save_previous :: "'f stored option \<Rightarrow> 'f json \<Rightarrow> 'f stored \<Rightarrow> 'f stored" where
  "save_previous io data disk = (case io of None \<Rightarrow> Holds data | Some left \<Rightarrow> left)"

text \<open>
  \<^verbatim>\<open>run\<close> (lines 367-398). The state of the loop is \<^verbatim>\<open>self.previous_data\<close> and the
  cache file. \<open>tick\<close> is one pass through the body of \<^verbatim>\<open>while True\<close>, given what
  \<^verbatim>\<open>fetch_json\<close> returned (\<^verbatim>\<open>None\<close> when the fetch failed) and the outcome of the write;
  an exception of \<^verbatim>\<open>display_diff\<close> is not caught and ends the program. \<open>run_ticks\<close> runs
  the loop over the outcomes of finitely many fetches (the loop itself ends only by
  an interrupt), collecting what was shown.
\<close>

record 'f wstate =
  previous_data :: "'f json"
  storage_file :: "'f stored"

definition tick ::
  "'f pyfloat \<Rightarrow> watcher \<Rightarrow> 'f wstate \<Rightarrow> 'f json \<Rightarrow> 'f stored option
     \<Rightarrow> error + ('f wstate \<times> 'f shown list)" where
  "tick F self st current_data io =
     (if current_data = JNull then Inr (st, [])
      else
        case (if previous_data st \<noteq> JNull
              then display_diff F self current_data (previous_data st)
              else display_diff F self current_data JNull) of
          Inl e \<Rightarrow> Inl e
        | Inr out \<Rightarrow>
            Inr (st\<lparr>previous_data := current_data,
                    storage_file := save_previous io current_data (storage_file st)\<rparr>, [out]))"

fun run_ticks ::
  "'f pyfloat \<Rightarrow> watcher \<Rightarrow> 'f wstate \<Rightarrow> ('f json \<times> 'f stored option) list
     \<Rightarrow> error + ('f wstate \<times> 'f shown list)" where
  "run_ticks F self st [] = Inr (st, [])"
| "run_ticks F self st ((current_data, io) # rest) =
     (case tick F self st current_data io of
        Inl e \<Rightarrow> Inl e
      | Inr (st', out) \<Rightarrow>
          (case run_ticks F self st' rest of
             Inl e \<Rightarrow> Inl e
           | Inr (st'', outs) \<Rightarrow> Inr (st'', out @ outs)))"

definition run ::
  "'f pyfloat \<Rightarrow> watcher \<Rightarrow> 'f stored \<Rightarrow> ('f json \<times> 'f stored option) list
     \<Rightarrow> error + ('f wstate \<times> 'f shown list)" where
  "run F self disk ticks =
     run_ticks F self \<lparr>previous_data = load_previous disk, storage_file = disk\<rparr> ticks"


section \<open>The structural diff\<close>

text \<open>
  Line 313 computes the differences with \<^verbatim>\<open>DeepDiff(previous_filtered, current_filtered,
  ignore_order=False, verbose_level=2)\<close>. \<^verbatim>\<open>DeepDiff\<close> is a library that the program
  imports; its code is not part of the source. The diff of this section is therefore the
  algorithm that the specification gives for it (its sections 3 and 4.4), and the
  statements about it are statements about that algorithm.
\<close>

text \<open>
  Modelled from the spec: \<open>Path\<close>, "a dotted/bracketed string identifying a location
  inside the compared structure" (the code that builds it is \<^verbatim>\<open>DeepDiff\<close>'s). A path
  is kept as its list of segments, a field name or an array index each; \<open>render_path\<close> gives
  the string, as in the spec's examples \<^verbatim>\<open>b\<close>, \<^verbatim>\<open>[2]\<close>: a field extends a path by
  \<^verbatim>\<open>.key\<close>, an index by \<^verbatim>\<open>[index]\<close>.
\<close>

datatype seg = Key string | Idx nat

type_synonym path = "seg list"


text \<open>
  Modelled from the spec: \<open>DiffResult\<close>, five mappings from paths to values (to the old
  and the new value for \<open>changed\<close>), each kept as the list of its entries in the order the
  algorithm finds them. \<open>no_diff\<close> is the empty result, \<open>join\<close> puts two results
  together.
\<close>

record 'f diff_result =
  added :: "(path \<times> 'f json) list"
  removed :: "(path \<times> 'f json) list"
  changed :: "(path \<times> 'f json \<times> 'f json) list"
  list_added :: "(path \<times> 'f json) list"
  list_removed :: "(path \<times> 'f json) list"

definition no_diff :: "'f diff_result" where
  "no_diff = \<lparr>added = [], removed = [], changed = [], list_added = [], list_removed = []\<rparr>"

definition join :: "'f diff_result \<Rightarrow> 'f diff_result \<Rightarrow> 'f diff_result" where
  "join d e =
     \<lparr>added = added d @ added e, removed = removed d @ removed e,
      changed = changed d @ changed e, list_added = list_added d @ list_added e,
      list_removed = list_removed d @ list_removed e\<rparr>"

text \<open>
  Modelled from the spec: equality of scalars, "value equality per JSON semantics
  (numeric equality irrespective of integer/float representation, exact string/bool/null
  equality)". \<open>V\<close> gives the number that a float stands for. Values of different types,
  and composite values, are never scalar-equal.
\<close>

fun scalar_eq :: "('f \<Rightarrow> rat) \<Rightarrow> 'f json \<Rightarrow> 'f json \<Rightarrow> bool" where
  "scalar_eq V JNull JNull = True"
| "scalar_eq V (JBool a) (JBool b) = (a = b)"
| "scalar_eq V (JStr s) (JStr t) = (s = t)"
| "scalar_eq V (JInt i) (JInt j) = (i = j)"
| "scalar_eq V (JInt i) (JFloat y) = (of_int i = V y)"
| "scalar_eq V (JFloat x) (JInt j) = (V x = of_int j)"
| "scalar_eq V (JFloat x) (JFloat y) = (V x = V y)"
| "scalar_eq V _ _ = False"

text \<open>
  Modelled from the spec: the diff algorithm of section 4.4 (in the code, the call of
  \<^verbatim>\<open>DeepDiff\<close>). \<open>diff_at\<close> compares two values at a path. Two dicts: \<open>diff_keys\<close> goes
  through the keys of the previous one (a key missing from the current one is \<open>removed\<close>,
  a key in both is compared at the path extended by the key) and \<open>added_keys\<close> lists the
  keys only the current one has. Two lists: \<open>diff_elems\<close> compares position by position
  at the path extended by the index; the positions only the current list has are
  \<open>list_added\<close>, those only the previous list has \<open>list_removed\<close> (\<open>indexed_from\<close> lists
  the elements of a tail with their indices). Anything else, a type mismatch included: no
  entry when scalar-equal, else one \<open>changed\<close> entry at the path.
\<close>

fun indexed_from :: "path \<Rightarrow> nat \<Rightarrow> 'f json list \<Rightarrow> (path \<times> 'f json) list" where
  "indexed_from path i [] = []"
| "indexed_from path i (y # ys) = (path @ [Idx i], y) # indexed_from path (i + 1) ys"

definition added_keys ::
  "path \<Rightarrow> (string \<times> 'f json) list \<Rightarrow> (string \<times> 'f json) list \<Rightarrow> (path \<times> 'f json) list"
where
  "added_keys path m n = [(path @ [Key k], v). (k, v) \<leftarrow> n, map_of m k = None]"

function (sequential) diff_at ::
    "('f \<Rightarrow> rat) \<Rightarrow> path \<Rightarrow> 'f json \<Rightarrow> 'f json \<Rightarrow> 'f diff_result"
  and diff_keys ::
    "('f \<Rightarrow> rat) \<Rightarrow> path \<Rightarrow> (string \<times> 'f json) list \<Rightarrow> (string \<times> 'f json) list
       \<Rightarrow> 'f diff_result"
  and diff_elems ::
    "('f \<Rightarrow> rat) \<Rightarrow> path \<Rightarrow> nat \<Rightarrow> 'f json list \<Rightarrow> 'f json list \<Rightarrow> 'f diff_result"
where
  "diff_at V path (JDict m) c =
     (case c of
        JDict n \<Rightarrow>
          join (diff_keys V path m n)
            (no_diff\<lparr>added := added_keys path m n\<rparr>)
      | _ \<Rightarrow> no_diff\<lparr>changed := [(path, JDict m, c)]\<rparr>)"
| "diff_at V path (JList xs) c =
     (case c of
        JList ys \<Rightarrow> diff_elems V path 0 xs ys
      | _ \<Rightarrow> no_diff\<lparr>changed := [(path, JList xs, c)]\<rparr>)"
| "diff_at V path p c =
     (if scalar_eq V p c then no_diff else no_diff\<lparr>changed := [(path, p, c)]\<rparr>)"
| "diff_keys V path [] n = no_diff"
| "diff_keys V path ((k, u) # m) n =
     join
       (case map_of n k of
          None \<Rightarrow> no_diff\<lparr>removed := [(path @ [Key k], u)]\<rparr>
        | Some v \<Rightarrow> diff_at V (path @ [Key k]) u v)
       (diff_keys V path m n)"
| "diff_elems V path i [] ys = no_diff\<lparr>list_added := indexed_from path i ys\<rparr>"
| "diff_elems V path i (x # xs) [] =
     no_diff\<lparr>list_removed := indexed_from path i (x # xs)\<rparr>"
| "diff_elems V path i (x # xs) (y # ys) =
     join (diff_at V (path @ [Idx i]) x y) (diff_elems V path (i + 1) xs ys)"
  by pat_completeness auto

termination
  by (relation "measure (\<lambda>x. case x of
         Inl (V, path, p, c) \<Rightarrow> size p
       | Inr (Inl (V, path, m, n)) \<Rightarrow> size_list (size_prod (\<lambda>_. 0) size) m
       | Inr (Inr (V, path, i, xs, ys)) \<Rightarrow> size_list size xs)") simp_all

text \<open>Modelled from the spec: \<open>diff(previous, current)\<close>, the comparison at the root path.\<close>

definition diff :: "('f \<Rightarrow> rat) \<Rightarrow> 'f json \<Rightarrow> 'f json \<Rightarrow> 'f diff_result" where
  "diff V previous current = diff_at V [] previous current"

text \<open>
  Modelled from the spec: structural identity, the "explicit equality notion independent
  of diffing" that section 4.4 asks for: the same type tags, for dicts the same keys with
  structurally identical values, for lists the same length with structurally identical
  elements at the same positions, for scalars \<open>scalar_eq\<close>.
\<close>

fun json_eq :: "('f \<Rightarrow> rat) \<Rightarrow> 'f json \<Rightarrow> 'f json \<Rightarrow> bool" where
  "json_eq V (JDict m) c =
     (case c of
        JDict n \<Rightarrow>
          fst ` set m = fst ` set n \<and>
          (\<forall>(k, u) \<in> set m. case map_of n k of None \<Rightarrow> False | Some v \<Rightarrow> json_eq V u v)
      | _ \<Rightarrow> False)"
| "json_eq V (JList xs) c =
     (case c of JList ys \<Rightarrow> list_all2 (json_eq V) xs ys | _ \<Rightarrow> False)"
| "json_eq V p c = scalar_eq V p c"

section \<open>Applying a diff\<close>

text \<open>
  Modelled from the spec: "re-applying added/removed/changed entries" (section 8; neither
  the program nor the library call it makes contains such an operation). \<open>patch d a\<close>
  walks through \<open>a\<close>. Where \<open>d\<close> has a \<open>changed\<close> entry for the place it stands at, the
  value becomes the entry's new value. In a dict, the members whose path \<open>d\<close> lists as
  \<open>removed\<close> are dropped, the others are patched, and the members \<open>d\<close> lists as \<open>added\<close>
  are put in; in a list the same with \<open>list_removed\<close> and \<open>list_added\<close>. The entries for
  the places below a member are found by \<open>sub_diff\<close>: the entries whose path starts with
  the member's segment, with that segment taken off.
\<close>

definition sub_entries :: "seg \<Rightarrow> (path \<times> 'a) list \<Rightarrow> (path \<times> 'a) list" where
  "sub_entries s es =
     List.map_filter
       (\<lambda>(q, x). case q of [] \<Rightarrow> None | s' # p \<Rightarrow> if s' = s then Some (p, x) else None) es"

definition sub_diff :: "seg \<Rightarrow> 'f diff_result \<Rightarrow> 'f diff_result" where
  "sub_diff s d =
     \<lparr>added = sub_entries s (added d), removed = sub_entries s (removed d),
      changed = sub_entries s (changed d), list_added = sub_entries s (list_added d),
      list_removed = sub_entries s (list_removed d)\<rparr>"

fun key_of :: "path \<Rightarrow> string option" where
  "key_of [Key k] = Some k"
| "key_of _ = None"

fun is_idx :: "path \<Rightarrow> bool" where
  "is_idx [Idx i] = True"
| "is_idx _ = False"

definition added_items :: "'f diff_result \<Rightarrow> (string \<times> 'f json) list" where
  "added_items d = List.map_filter (\<lambda>(p, v). map_option (\<lambda>k. (k, v)) (key_of p)) (added d)"

definition added_elems :: "'f diff_result \<Rightarrow> 'f json list" where
  "added_elems d = map snd (filter (\<lambda>(p, v). is_idx p) (list_added d))"

function (sequential) patch :: "'f diff_result \<Rightarrow> 'f json \<Rightarrow> 'f json"
  and patch_items :: "'f diff_result \<Rightarrow> (string \<times> 'f json) list \<Rightarrow> (string \<times> 'f json) list"
  and patch_elems :: "'f diff_result \<Rightarrow> nat \<Rightarrow> 'f json list \<Rightarrow> 'f json list"
where
  "patch d (JDict m) =
     (case map_of (changed d) [] of
        Some (old, new) \<Rightarrow> new
      | None \<Rightarrow> JDict (patch_items d m @ added_items d))"
| "patch d (JList xs) =
     (case map_of (changed d) [] of
        Some (old, new) \<Rightarrow> new
      | None \<Rightarrow> JList (patch_elems d 0 xs @ added_elems d))"
| "patch d a = (case map_of (changed d) [] of Some (old, new) \<Rightarrow> new | None \<Rightarrow> a)"
| "patch_items d [] = []"
| "patch_items d ((k, u) # m) =
     (if [Key k] \<in> fst ` set (removed d) then [] else [(k, patch (sub_diff (Key k) d) u)])
     @ patch_items d m"
| "patch_elems d i [] = []"
| "patch_elems d i (x # xs) =
     (if [Idx i] \<in> fst ` set (list_removed d) then [] else [patch (sub_diff (Idx i) d) x])
     @ patch_elems d (i + 1) xs"
  by pat_completeness auto

termination
  by (relation "measure (\<lambda>x. case x of
         Inl (d, a) \<Rightarrow> size a
       | Inr (Inl (d, m)) \<Rightarrow> size_list (size_prod (\<lambda>_. 0) size) m
       | Inr (Inr (d, i, xs)) \<Rightarrow> size_list size xs)") simp_all

text \<open>
  For the proofs about \<open>patch\<close>: a diff with all its paths extended at the front; the
  paths a diff mentions; that all of them start with segments of one kind; that none of
  the four buckets of members is at the root.
\<close>

definition pre_entries :: "path \<Rightarrow> (path \<times> 'a) list \<Rightarrow> (path \<times> 'a) list" where
  "pre_entries q es = map (\<lambda>(p, x). (q @ p, x)) es"

definition pre_diff :: "path \<Rightarrow> 'f diff_result \<Rightarrow> 'f diff_result" where
  "pre_diff q d =
     \<lparr>added = pre_entries q (added d), removed = pre_entries q (removed d),
      changed = pre_entries q (changed d), list_added = pre_entries q (list_added d),
      list_removed = pre_entries q (list_removed d)\<rparr>"

definition paths_of :: "'f diff_result \<Rightarrow> path set" where
  "paths_of d =
     fst ` set (added d) \<union> fst ` set (removed d) \<union> fst ` set (changed d)
     \<union> fst ` set (list_added d) \<union> fst ` set (list_removed d)"

definition member_paths :: "'f diff_result \<Rightarrow> path set" where
  "member_paths d =
     fst ` set (added d) \<union> fst ` set (removed d)
     \<union> fst ` set (list_added d) \<union> fst ` set (list_removed d)"

definition starts :: "(seg \<Rightarrow> bool) \<Rightarrow> 'f diff_result \<Rightarrow> bool" where
  "starts P d = (\<forall>p \<in> paths_of d. case p of [] \<Rightarrow> False | s # _ \<Rightarrow> P s)"

definition inner :: "'f diff_result \<Rightarrow> bool" where
  "inner d = ([] \<notin> member_paths d)"

text \<open>
  Specification side, for the recursive search: some dict inside the value (the value
  itself included) holds the key with a matching value.
\<close>

fun has_match :: "'f pyfloat \<Rightarrow> string \<Rightarrow> string option \<Rightarrow> 'f json \<Rightarrow> bool" where
  "has_match F key value (JDict kvs) =
     ((dict_has kvs key \<and> value_matches F value (dict_item kvs key))
      \<or> (\<exists>v \<in> snd ` set kvs. has_match F key value v))"
| "has_match F key value (JList xs) = (\<exists>x \<in> set xs. has_match F key value x)"
| "has_match F key value _ = False"

text \<open>
  Float operations for concrete documents that hold no float: the carrier is \<open>unit\<close>.
\<close>

definition float_none :: "unit pyfloat" where
  "float_none = \<lparr>float_repr = (\<lambda>_. ''0.0''), float_bool = (\<lambda>_. False)\<rparr>"

text \<open>
  The value of a float, for concrete documents that hold no float.
\<close>

definition no_float_val :: "unit \<Rightarrow> rat" where
  "no_float_val u = 0"

section \<open>Properties of the path filter\<close>

text \<open>
  The only exception of the path filter is the one of a part with a field name and an
  index, met on a value that is not a dict; a path without such a part never raises.
\<close>

lemma path_step_raise:
  "path_step result part = Raise e \<Longrightarrow>
     CHR ''['' \<in> set part \<and> CHR '']'' \<in> set part \<and> take (index part CHR ''['') part \<noteq> []
     \<and> \<not> is_dict result"
  by (cases result)
    (auto simp: path_step_def Let_def split: if_splits sum.splits option.splits json.splits)

lemma path_loop_no_raise:
  assumes "\<And>part. part \<in> set parts \<Longrightarrow> CHR ''['' \<in> set part \<Longrightarrow> CHR '']'' \<in> set part
             \<Longrightarrow> take (index part CHR ''['') part = []"
  shows "\<exists>v. path_loop data parts = Inr v"
  using assms
proof (induction parts arbitrary: data)
  case Nil
  show ?case by simp
next
  case (Cons part parts)
  show ?case
  proof (cases "path_step data part")
    case (Continue r)
    then show ?thesis using Cons.IH [of r] Cons.prems by simp
  next
    case (Return r)
    then show ?thesis by simp
  next
    case (Raise e)
    then show ?thesis using path_step_raise [OF Raise] Cons.prems [of part] by simp
  qed
qed

text \<open>
  Claim C2 (the path filter never raises, a malformed or non-matching path gives an
  empty dict). The code raises on a segment that has both a field name and an index
  when the value reached so far is not a dict: \<^verbatim>\<open>result.get(key, {})\<close> at line 143 is
  not guarded by \<^verbatim>\<open>isinstance(result, dict)\<close>, as the plain field branch at line 160 is.
  On the list \<^verbatim>\<open>[1]\<close> the paths \<^verbatim>\<open>a[0]\<close> and \<^verbatim>\<open>items[abc]\<close> end in
  \<^verbatim>\<open>AttributeError\<close>, and so does \<^verbatim>\<open>a.b[0]\<close> on \<^verbatim>\<open>{"a": 5}\<close>; on a dict
  \<^verbatim>\<open>items[abc]\<close> gives the empty dict.
\<close>

theorem apply_path_filter_raises_on_non_dict:
  "apply_path_filter (JList [JInt 1 :: unit json]) ''a[0]'' = Inl AttributeError
 \<and> apply_path_filter (JList [JInt 1 :: unit json]) ''items[abc]'' = Inl AttributeError
 \<and> apply_path_filter (JDict [(''a'', JInt 5 :: unit json)]) ''a.b[0]'' = Inl AttributeError
 \<and> apply_path_filter (JDict [(''items'', JList [JInt 1 :: unit json])]) ''items[abc]''
     = Inr (JDict [])"
proof -
  have i: "py_int ''abc'' = None" by code_simp
  show ?thesis
    by (simp add: apply_path_filter_def path_step_def index_def slice_def dict_get_def i)
qed

lemma split_not_Nil [simp]: "split c s \<noteq> []"
  by (induction s) auto


















section \<open>Properties of the key filter\<close>

lemma filter_items_append:
  "filter_items F key value filtered items = filtered @ filter (item_matches F key value) items"
  by (induction items arbitrary: filtered) simp_all

lemma item_matches_iff:
  "item_matches F key value item \<longleftrightarrow>
     (\<exists>kvs v. item = JDict kvs \<and> map_of kvs key = Some v \<and>
        (value = None \<or> value = Some (py_str F v)))"
  by (cases item)
    (auto simp: dict_has_def dict_item_def dict_get_def value_matches_def split: option.splits)

text \<open>
  Claim C6. With a key filter, \<^verbatim>\<open>filter_json\<close> on a list (the data itself when there
  is no path filter, or the list that the path filter selects) returns the list of
  exactly those items that are dicts holding the key and, when a value is given, whose
  \<^verbatim>\<open>str\<close> at the key is that value; \<open>filter\<close> keeps the items in their original order.
  On \<^verbatim>\<open>[{"id":1,"s":"active"},{"id":2,"s":"off"}]\<close> with key \<^verbatim>\<open>s\<close> and value \<^verbatim>\<open>active\<close>
  the result is \<^verbatim>\<open>[{"id":1,"s":"active"}]\<close>.
\<close>

theorem key_filter_on_list:
  assumes "key \<noteq> []"
  shows "filter_json F \<lparr>filter_path = None, filter_key = Some key, filter_value = value\<rparr>
           (JList items)
         = Inr (JList (filter
             (\<lambda>item. \<exists>kvs v. item = JDict kvs \<and> map_of kvs key = Some v \<and>
                (value = None \<or> value = Some (py_str F v))) items))
       \<and> (path \<noteq> [] \<and> apply_path_filter data path = Inr (JList items) \<longrightarrow>
            filter_json F \<lparr>filter_path = Some path, filter_key = Some key, filter_value = value\<rparr>
              data
            = Inr (JList (filter
                (\<lambda>item. \<exists>kvs v. item = JDict kvs \<and> map_of kvs key = Some v \<and>
                   (value = None \<or> value = Some (py_str F v))) items)))
       \<and> filter_json F
           \<lparr>filter_path = None, filter_key = Some ''s'', filter_value = Some ''active''\<rparr>
           (JList [JDict [(''id'', JInt 1), (''s'', JStr ''active'')],
                   JDict [(''id'', JInt 2), (''s'', JStr ''off'')]])
         = Inr (JList [JDict [(''id'', JInt 1), (''s'', JStr ''active'')]])"
proof -
  have im: "item_matches F key value =
      (\<lambda>item. \<exists>kvs v. item = JDict kvs \<and> map_of kvs key = Some v \<and>
         (value = None \<or> value = Some (py_str F v)))"
    by (rule ext) (rule item_matches_iff)
  have general:
    "filter_json F \<lparr>filter_path = None, filter_key = Some key, filter_value = value\<rparr>
       (JList items)
     = Inr (JList (filter (item_matches F key value) items))"
    using assms by (simp add: filter_json_def opt_bool_def filter_items_append)
  have after_path:
    "filter_json F \<lparr>filter_path = Some path, filter_key = Some key, filter_value = value\<rparr>
       data
     = Inr (JList (filter (item_matches F key value) items))"
    if "path \<noteq> []" and "apply_path_filter data path = Inr (JList items)"
    using assms that by (simp add: filter_json_def opt_bool_def filter_items_append)
  have example:
    "filter_json F
       \<lparr>filter_path = None, filter_key = Some ''s'', filter_value = Some ''active''\<rparr>
       (JList [JDict [(''id'', JInt 1), (''s'', JStr ''active'')],
               JDict [(''id'', JInt 2), (''s'', JStr ''off'')]])
     = Inr (JList [JDict [(''id'', JInt 1), (''s'', JStr ''active'')]])"
    by (simp add: filter_json_def opt_bool_def dict_has_def dict_item_def dict_get_def
        value_matches_def py_str_def)
  show ?thesis using general after_path example unfolding im by simp
qed

theorem key_filter_on_list_witness:
  "filter_json float_none
     \<lparr>filter_path = None, filter_key = Some ''id'', filter_value = Some ''2''\<rparr>
     (JList [JDict [(''id'', JInt 1)], JInt 7,
             JDict [(''id'', JInt 2), (''s'', JStr ''off'')], JDict [(''id'', JStr ''2'')]])
   = Inr (JList [JDict [(''id'', JInt 2), (''s'', JStr ''off'')], JDict [(''id'', JStr ''2'')]])
 \<and> filter_json float_none
     \<lparr>filter_path = Some ''rows'', filter_key = Some ''id'', filter_value = Some ''2''\<rparr>
     (JDict [(''rows'', JList [JDict [(''id'', JInt 1)], JInt 7,
             JDict [(''id'', JInt 2), (''s'', JStr ''off'')], JDict [(''id'', JStr ''2'')]])])
   = Inr (JList [JDict [(''id'', JInt 2), (''s'', JStr ''off'')], JDict [(''id'', JStr ''2'')]])"
proof -
  let ?items = "[JDict [(''id'', JInt 1)], JInt 7,
          JDict [(''id'', JInt 2), (''s'', JStr ''off'')], JDict [(''id'', JStr ''2'')]]
          :: unit json list"
  have k: "''id'' \<noteq> []" by simp
  have s: "str_int 2 = ''2''" "str_int 1 = ''1''" by code_simp+
  have a: "''rows'' \<noteq> [] \<and>
      apply_path_filter (JDict [(''rows'', JList ?items)]) ''rows'' = Inr (JList ?items)"
    by (simp add: apply_path_filter_def path_step_def dict_get_def)
  show ?thesis
    using a key_filter_on_list [OF k, of float_none "Some ''2''" ?items "''rows''"
        "JDict [(''rows'', JList ?items)]"]
    by (simp add: py_str_def s)
qed

text \<open>
  Claim C4 (a key filter applied to a value that is neither list nor dict returns
  nothing, never the value itself). \<^verbatim>\<open>filter_json\<close> guards its key filtering by
  \<^verbatim>\<open>isinstance(result, list)\<close> and \<^verbatim>\<open>isinstance(result, dict)\<close> and has no \<^verbatim>\<open>else\<close>: with
  key \<^verbatim>\<open>s\<close> the number 5 comes back as 5.
\<close>

theorem key_filter_scalar_counterexample:
  "filter_json float_none
     \<lparr>filter_path = None, filter_key = Some ''s'', filter_value = None\<rparr> (JInt 5)
   = Inr (JInt 5)"
  by (simp add: filter_json_def opt_bool_def)

text \<open>
  Claim C4 as amended: on a value that is neither a list nor a dict the recursive search
  \<^verbatim>\<open>_find_and_filter_key\<close> returns \<^verbatim>\<open>None\<close>, for every key and optional value, while
  \<^verbatim>\<open>filter_json\<close> with a key filter (and no path filter) returns the value unchanged.
\<close>

theorem key_filter_scalar:
  assumes "\<not> is_list data" and "\<not> is_dict data"
  shows "find_and_filter_key F data key value = JNull
       \<and> filter_json F \<lparr>filter_path = None, filter_key = Some key, filter_value = value\<rparr> data
           = Inr data"
  using assms by (cases data) (simp_all add: filter_json_def opt_bool_def)

theorem key_filter_scalar_witness:
  "find_and_filter_key float_none (JStr ''active'') ''s'' (Some ''active'') = JNull
   \<and> filter_json float_none
        \<lparr>filter_path = None, filter_key = Some ''s'', filter_value = Some ''active''\<rparr>
        (JStr ''active'')
      = Inr (JStr ''active'')"
  using key_filter_scalar [of "JStr ''active''" float_none "''s''" "Some ''active''"] by simp

lemma update_not_Nil: "AList.update k v al \<noteq> []"
  by (cases al) auto

lemma find_result_shape:
  "find_and_filter_key F data key value = JNull \<or> py_bool F (find_and_filter_key F data key value)"
  by (cases data) (auto simp: Let_def)

lemma find_has_match:
  "(find_and_filter_key F data key value \<noteq> JNull) = has_match F key value data"
  "(find_items F result kvs key value \<noteq> []) =
      (result \<noteq> [] \<or> (\<exists>v \<in> snd ` set kvs. has_match F key value v))"
  "(find_elems F result2 xs key value \<noteq> []) =
      (result2 \<noteq> [] \<or> (\<exists>x \<in> set xs. has_match F key value x))"
proof (induction F data key "value" and F result kvs key "value" and F result2 xs key "value"
    rule: find_and_filter_key_find_items_find_elems.induct)
  case (9 F result k v kvs key "value")
  have "py_bool F (find_and_filter_key F v key value) = has_match F key value v"
    using 9(1) find_result_shape [of F v key "value"] by auto
  then show ?case using 9 by (auto simp: Let_def update_not_Nil)
next
  case (11 F result item items key "value")
  have "py_bool F (find_and_filter_key F item key value) = has_match F key value item"
    using 11(1) find_result_shape [of F item key "value"] by auto
  then show ?case using 11 by (auto simp: Let_def)
qed (auto simp: Let_def)

text \<open>
  Claim C3 (inside the recursive search, a nested dict that holds the key with a value
  that does not match yields an empty dict and its descendants are not searched). In
  \<^verbatim>\<open>{"outer": {"s": "off", "inner": {"s": "active"}}}\<close> with key \<^verbatim>\<open>s\<close> and value
  \<^verbatim>\<open>active\<close>, the dict under \<^verbatim>\<open>outer\<close> holds \<^verbatim>\<open>s\<close> with the non-matching \<^verbatim>\<open>off\<close>; the
  search goes on below it and \<^verbatim>\<open>outer\<close> stays in the result.
\<close>

theorem nested_mismatch_counterexample:
  "filter_json float_none
     \<lparr>filter_path = None, filter_key = Some ''s'', filter_value = Some ''active''\<rparr>
     (JDict [(''outer'',
        JDict [(''s'', JStr ''off''), (''inner'', JDict [(''s'', JStr ''active'')])])])
   = Inr (JDict [(''outer'', JDict [(''inner'', JDict [(''s'', JStr ''active'')])])])"
  by (simp add: filter_json_def opt_bool_def dict_has_def dict_item_def dict_get_def
      value_matches_def py_str_def)

text \<open>
  Claim C3 as amended: in \<^verbatim>\<open>_find_and_filter_key\<close> a dict that holds the key with a
  value that does not match is searched exactly like a dict without the key: the result
  is rebuilt from the search of its children, and it is \<^verbatim>\<open>None\<close> (so the dict
  contributes nothing to the result of its parent) if and only if no dict below it holds
  the key with a matching value.
\<close>

theorem nested_mismatch_is_searched:
  assumes "dict_has kvs key" and "\<not> value_matches F value (dict_item kvs key)"
  shows "find_and_filter_key F (JDict kvs) key value =
           (if find_items F [] kvs key value \<noteq> []
            then JDict (find_items F [] kvs key value) else JNull)
       \<and> (find_and_filter_key F (JDict kvs) key value \<noteq> JNull
            \<longleftrightarrow> (\<exists>v \<in> snd ` set kvs. has_match F key value v))"
  using assms find_has_match(2) [of F "[]" kvs key "value"] by (simp add: Let_def)

theorem nested_mismatch_is_searched_witness:
  "dict_has [(''s'', JStr ''off''), (''inner'', JDict [(''s'', JStr ''active'')])] ''s''
 \<and> \<not> value_matches float_none (Some ''active'')
       (dict_item [(''s'', JStr ''off''), (''inner'', JDict [(''s'', JStr ''active'')])] ''s'')
 \<and> find_and_filter_key float_none
       (JDict [(''s'', JStr ''off''), (''inner'', JDict [(''s'', JStr ''active'')])])
       ''s'' (Some ''active'')
     = JDict [(''inner'', JDict [(''s'', JStr ''active'')])]"
proof -
  have h: "dict_has [(''s'', JStr ''off''), (''inner'', JDict [(''s'', JStr ''active'' :: unit json)])] ''s''"
    "\<not> value_matches float_none (Some ''active'')
       (dict_item [(''s'', JStr ''off''), (''inner'', JDict [(''s'', JStr ''active'')])] ''s'')"
    by (simp_all add: dict_has_def dict_item_def dict_get_def value_matches_def py_str_def)
  show ?thesis
    using h nested_mismatch_is_searched [OF h]
    by (simp add: dict_has_def dict_item_def dict_get_def value_matches_def py_str_def)
qed

text \<open>
  Claim C10. The match is against \<^verbatim>\<open>str(value)\<close>, Python's rendering, at all three
  places (list items, the dict itself, the recursive search): \<^verbatim>\<open>true\<close> matches
  \<^verbatim>\<open>True\<close> and not its JSON text \<^verbatim>\<open>true\<close>, \<^verbatim>\<open>null\<close> matches \<^verbatim>\<open>None\<close> and not
  \<^verbatim>\<open>null\<close>, the number 1 matches \<^verbatim>\<open>1\<close>.
\<close>

theorem match_uses_python_str:
  "py_str F (JBool True) = ''True'' \<and> py_str F JNull = ''None'' \<and> py_str F (JInt 1) = ''1''
 \<and> filter_json F \<lparr>filter_path = None, filter_key = Some ''k'', filter_value = Some ''True''\<rparr>
      (JList [JDict [(''k'', JBool True)]]) = Inr (JList [JDict [(''k'', JBool True)]])
 \<and> filter_json F \<lparr>filter_path = None, filter_key = Some ''k'', filter_value = Some ''true''\<rparr>
      (JList [JDict [(''k'', JBool True)]]) = Inr (JList [])
 \<and> filter_json F \<lparr>filter_path = None, filter_key = Some ''k'', filter_value = Some ''None''\<rparr>
      (JDict [(''k'', JNull)]) = Inr (JDict [(''k'', JNull)])
 \<and> filter_json F \<lparr>filter_path = None, filter_key = Some ''k'', filter_value = Some ''null''\<rparr>
      (JDict [(''k'', JNull)]) = Inr (JDict [])
 \<and> filter_json F \<lparr>filter_path = None, filter_key = Some ''k'', filter_value = Some ''1''\<rparr>
      (JDict [(''d'', JDict [(''k'', JInt 1)])]) = Inr (JDict [(''d'', JDict [(''k'', JInt 1)])])
 \<and> filter_json F \<lparr>filter_path = None, filter_key = Some ''k'', filter_value = Some ''true''\<rparr>
      (JDict [(''d'', JDict [(''k'', JBool True)])]) = Inr JNull
 \<and> filter_json F \<lparr>filter_path = None, filter_key = Some ''k'', filter_value = Some ''True''\<rparr>
      (JDict [(''d'', JDict [(''k'', JBool True)])]) = Inr (JDict [(''d'', JDict [(''k'', JBool True)])])"
proof -
  have s: "str_int 1 = ''1''" by code_simp
  show ?thesis
    by (simp add: filter_json_def opt_bool_def dict_has_def dict_item_def dict_get_def
        value_matches_def py_str_def s)
qed


section \<open>Properties of the watch loop\<close>






section \<open>Properties of the structural diff\<close>

lemma join_no_diff [simp]: "join d e = no_diff \<longleftrightarrow> d = no_diff \<and> e = no_diff"
  by (cases d; cases e) (auto simp: join_def no_diff_def)

lemma bucket_no_diff [simp]:
  "no_diff\<lparr>added := xs\<rparr> = no_diff \<longleftrightarrow> xs = []"
  "no_diff\<lparr>removed := xs\<rparr> = no_diff \<longleftrightarrow> xs = []"
  "no_diff\<lparr>changed := ys\<rparr> = no_diff \<longleftrightarrow> ys = []"
  "no_diff\<lparr>list_added := xs\<rparr> = no_diff \<longleftrightarrow> xs = []"
  "no_diff\<lparr>list_removed := xs\<rparr> = no_diff \<longleftrightarrow> xs = []"
  by (auto simp: no_diff_def)

lemma added_part_empty:
  "added_keys path m n = [] \<longleftrightarrow> fst ` set n \<subseteq> fst ` set m"
proof (induction n)
  case Nil
  show ?case by (simp add: added_keys_def)
next
  case (Cons kv n)
  obtain k v where kv: "kv = (k, v)" by (cases kv)
  show ?case
    using Cons by (auto simp: kv map_of_eq_None_iff added_keys_def)
qed

lemma indexed_from_Nil [simp]: "indexed_from path i ys = [] \<longleftrightarrow> ys = []"
  by (cases ys) simp_all

lemma diff_empty_iff:
  "diff_at V path p c = no_diff \<longleftrightarrow> json_eq V p c"
  "diff_keys V path m n = no_diff \<longleftrightarrow>
     (\<forall>(k, u) \<in> set m. case map_of n k of None \<Rightarrow> False | Some v \<Rightarrow> json_eq V u v)"
  "diff_elems V path i xs ys = no_diff \<longleftrightarrow> list_all2 (json_eq V) xs ys"
proof (induction V path p c and V path m n and V path i xs ys
    rule: diff_at_diff_keys_diff_elems.induct)
  case (1 V path m c)
  show ?case
  proof (cases c)
    case (JDict n)
    have "(\<forall>(k, u) \<in> set m. case map_of n k of None \<Rightarrow> False | Some v \<Rightarrow> json_eq V u v)
            \<Longrightarrow> fst ` set m \<subseteq> fst ` set n"
      by (auto simp: map_of_eq_None_iff split: option.splits)
    then show ?thesis
      using 1 JDict by (auto simp: added_part_empty)
  qed simp_all
next
  case (2 V path xs c)
  then show ?case by (cases c) simp_all
next
  case (5 V path k u m n)
  then show ?case by (cases "map_of n k") simp_all
qed simp_all

lemma json_eq_refl: "wf_json x \<Longrightarrow> json_eq V x x"
proof (induction x)
  case (JList xs)
  then show ?case by (simp add: list_all2_same)
next
  case (JDict kvs)
  have "map_of kvs k = Some u \<and> json_eq V u u" if "(k, u) \<in> set kvs" for k u
    using that JDict by (force simp: image_iff)
  then show ?case by auto
qed simp_all

text \<open>
  Claim C1. The diff of a value with itself is empty, and the diff of two values is
  empty if and only if they are structurally identical: same type tags, same dict keys
  with structurally identical values, same list lengths with structurally identical
  elements at the same positions, equal scalars.
\<close>

theorem diff_empty_iff_identical:
  "(wf_json x \<longrightarrow> diff V x x = no_diff)
 \<and> (diff V previous current = no_diff \<longleftrightarrow> json_eq V previous current)"
  using diff_empty_iff(1) [of V "[]"] json_eq_refl [of x V] by (simp add: diff_def)

theorem diff_empty_iff_identical_witness:
  "wf_json (JDict [(''a'', JList [JInt 1, JNull]), (''b'', JStr ''x'') :: (string \<times> unit json)])
 \<and> diff no_float_val (JDict [(''a'', JList [JInt 1, JNull]), (''b'', JStr ''x'')])
       (JDict [(''a'', JList [JInt 1, JNull]), (''b'', JStr ''x'')]) = no_diff
 \<and> json_eq no_float_val (JDict [(''a'', JInt 1), (''b'', JInt 2)]) (JDict [(''b'', JInt 2), (''a'', JInt 1)])
 \<and> diff no_float_val (JDict [(''a'', JInt 1), (''b'', JInt 2)]) (JDict [(''b'', JInt 2), (''a'', JInt 1)])
     = no_diff"
proof -
  let ?x = "JDict [(''a'', JList [JInt 1, JNull]), (''b'', JStr ''x'')] :: unit json"
  let ?p = "JDict [(''a'', JInt 1), (''b'', JInt 2)] :: unit json"
  let ?c = "JDict [(''b'', JInt 2), (''a'', JInt 1)] :: unit json"
  have w: "wf_json ?x" by simp
  have e: "json_eq no_float_val ?p ?c" by auto
  show ?thesis
    using w e diff_empty_iff_identical [of ?x no_float_val ?p ?c] by blast
qed


section \<open>Properties of applying a diff\<close>

lemma join_simps [simp]:
  "join no_diff d = d" "join d no_diff = d"
  "join (join a b) c = join a (join b c)"
  by (simp_all add: join_def no_diff_def)

lemma join_fields [simp]:
  "added (join d e) = added d @ added e"
  "removed (join d e) = removed d @ removed e"
  "changed (join d e) = changed d @ changed e"
  "list_added (join d e) = list_added d @ list_added e"
  "list_removed (join d e) = list_removed d @ list_removed e"
  by (simp_all add: join_def)

lemma no_diff_fields [simp]:
  "added no_diff = []" "removed no_diff = []" "changed no_diff = []"
  "list_added no_diff = []" "list_removed no_diff = []"
  by (simp_all add: no_diff_def)

lemma pre_entries_simps [simp]:
  "pre_entries q [] = []"
  "pre_entries q ((p, x) # es) = (q @ p, x) # pre_entries q es"
  "pre_entries q (es @ fs) = pre_entries q es @ pre_entries q fs"
  "pre_entries [] es = es"
  "pre_entries q (pre_entries r es) = pre_entries (q @ r) es"
  by (simp_all add: pre_entries_def case_prod_unfold)

lemma pre_diff_simps [simp]:
  "pre_diff q no_diff = no_diff"
  "pre_diff q (join d e) = join (pre_diff q d) (pre_diff q e)"
  "pre_diff [] d = d"
  "pre_diff q (no_diff\<lparr>added := es\<rparr>) = no_diff\<lparr>added := pre_entries q es\<rparr>"
  "pre_diff q (no_diff\<lparr>removed := es\<rparr>) = no_diff\<lparr>removed := pre_entries q es\<rparr>"
  "pre_diff q (no_diff\<lparr>changed := cs\<rparr>) = no_diff\<lparr>changed := pre_entries q cs\<rparr>"
  "pre_diff q (no_diff\<lparr>list_added := es\<rparr>) = no_diff\<lparr>list_added := pre_entries q es\<rparr>"
  "pre_diff q (no_diff\<lparr>list_removed := es\<rparr>) = no_diff\<lparr>list_removed := pre_entries q es\<rparr>"
  by (simp_all add: pre_diff_def join_def no_diff_def)

lemma indexed_from_prefix:
  "indexed_from (q @ path) i ys = pre_entries q (indexed_from path i ys)"
  by (induction ys arbitrary: i) simp_all

lemma added_keys_prefix:
  "added_keys (q @ path) m n = pre_entries q (added_keys path m n)"
  by (induction n) (auto simp: added_keys_def)

lemma diff_prefix:
  "diff_at V (q @ path) p c = pre_diff q (diff_at V path p c)"
  "diff_keys V (q @ path) m n = pre_diff q (diff_keys V path m n)"
  "diff_elems V (q @ path) i xs ys = pre_diff q (diff_elems V path i xs ys)"
proof (induction V path p c and V path m n and V path i xs ys arbitrary: q and q and q
    rule: diff_at_diff_keys_diff_elems.induct)
  case (1 V path m c)
  then show ?case by (cases c) (simp_all add: added_keys_prefix)
next
  case (2 V path xs c)
  then show ?case by (cases c) simp_all
next
  case (5 V path k u m n)
  have "diff_at V (q @ path @ [Key k]) u v = pre_diff q (diff_at V (path @ [Key k]) u v)"
    if "map_of n k = Some v" for v
    using 5(1) [OF that, of q] by simp
  then show ?case using 5(2) [of q] by (cases "map_of n k") simp_all
next
  case (8 V path i x xs y ys)
  show ?case using 8(1) [of q] 8(2) [of q] by simp
qed (simp_all add: indexed_from_prefix)

lemma paths_of_simps [simp]:
  "paths_of no_diff = {}"
  "paths_of (join d e) = paths_of d \<union> paths_of e"
  "paths_of (no_diff\<lparr>added := es\<rparr>) = fst ` set es"
  "paths_of (no_diff\<lparr>removed := es\<rparr>) = fst ` set es"
  "paths_of (no_diff\<lparr>changed := cs\<rparr>) = fst ` set cs"
  "paths_of (no_diff\<lparr>list_added := es\<rparr>) = fst ` set es"
  "paths_of (no_diff\<lparr>list_removed := es\<rparr>) = fst ` set es"
  by (auto simp: paths_of_def no_diff_def)

lemma member_paths_simps [simp]:
  "member_paths no_diff = {}"
  "member_paths (join d e) = member_paths d \<union> member_paths e"
  "member_paths (no_diff\<lparr>added := es\<rparr>) = fst ` set es"
  "member_paths (no_diff\<lparr>removed := es\<rparr>) = fst ` set es"
  "member_paths (no_diff\<lparr>changed := cs\<rparr>) = {}"
  "member_paths (no_diff\<lparr>list_added := es\<rparr>) = fst ` set es"
  "member_paths (no_diff\<lparr>list_removed := es\<rparr>) = fst ` set es"
  by (auto simp: member_paths_def no_diff_def)

lemma member_paths_subset: "member_paths d \<subseteq> paths_of d"
  by (auto simp: member_paths_def paths_of_def)

lemma fst_pre_entries [simp]: "fst ` set (pre_entries q es) = (\<lambda>p. q @ p) ` fst ` set es"
  by (force simp: pre_entries_def image_iff)

lemma paths_of_pre_diff [simp]: "paths_of (pre_diff q d) = (\<lambda>p. q @ p) ` paths_of d"
  by (simp add: paths_of_def pre_diff_def image_Un)

lemma member_paths_pre_diff [simp]: "member_paths (pre_diff q d) = (\<lambda>p. q @ p) ` member_paths d"
  by (simp add: member_paths_def pre_diff_def image_Un)

lemma starts_simps [simp]:
  "starts P no_diff"
  "starts P (join d e) \<longleftrightarrow> starts P d \<and> starts P e"
  by (auto simp: starts_def)

lemma starts_pre_diff: "P s \<Longrightarrow> starts P (pre_diff (s # q) d)"
  by (auto simp: starts_def)

lemma starts_mono: "starts P d \<Longrightarrow> (\<And>s. P s \<Longrightarrow> Q s) \<Longrightarrow> starts Q d"
  by (auto simp: starts_def split: list.splits)

lemma starts_no_root: "starts P d \<Longrightarrow> [] \<notin> paths_of d"
  by (auto simp: starts_def)

lemma starts_inner: "starts P d \<Longrightarrow> inner d"
  using member_paths_subset [of d] starts_no_root [of P d] by (auto simp: inner_def)

lemma starts_changed: "starts P d \<Longrightarrow> map_of (changed d) [] = None"
  using starts_no_root [of P d] by (simp add: map_of_eq_None_iff paths_of_def)

lemma indexed_from_paths:
  "fst ` set (indexed_from [] i ys) = (\<lambda>j. [Idx j]) ` {i ..< i + length ys}"
proof (induction ys arbitrary: i)
  case Nil
  show ?case by simp
next
  case (Cons y ys)
  have "{i ..< i + length (y # ys)} = insert i {Suc i ..< Suc i + length ys}" by auto
  then show ?case using Cons [of "Suc i"] by simp
qed

lemma added_keys_root:
  "added_keys [] m n =
     map (\<lambda>(k, v). ([Key k], v)) (filter (\<lambda>(k, v). map_of m k = None) n)"
  by (induction n) (auto simp: added_keys_def)

lemma starts_added_keys:
  "starts (\<lambda>s. \<exists>k. s = Key k \<and> k \<notin> fst ` set m) (no_diff\<lparr>added := added_keys [] m n\<rparr>)"
  by (auto simp: starts_def added_keys_root map_of_eq_None_iff)

lemma diff_at_rel: "diff_at V q p c = pre_diff q (diff_at V [] p c)"
  using diff_prefix(1) [of V q "[]" p c] by simp

lemma starts_diff_keys:
  "starts (\<lambda>s. \<exists>k \<in> fst ` set m. s = Key k) (diff_keys V [] m n)"
proof (induction m)
  case Nil
  show ?case by simp
next
  case (Cons ku m)
  obtain k u where ku: "ku = (k, u)" by (cases ku)
  have 1: "starts (\<lambda>s. \<exists>k \<in> fst ` set (ku # m). s = Key k) (diff_keys V [] m n)"
    by (rule starts_mono [OF Cons]) auto
  have 2: "starts (\<lambda>s. \<exists>k \<in> fst ` set (ku # m). s = Key k)
             (case map_of n k of None \<Rightarrow> no_diff\<lparr>removed := [([Key k], u)]\<rparr>
              | Some v \<Rightarrow> diff_at V [Key k] u v)"
  proof (cases "map_of n k")
    case None
    then show ?thesis by (simp add: starts_def ku)
  next
    case (Some v)
    then show ?thesis
      using diff_at_rel [of V "[Key k]" u v] by (simp add: ku starts_pre_diff)
  qed
  show ?case using 1 2 by (cases "map_of n k") (simp_all add: ku)
qed

lemma starts_diff_elems:
  "starts (\<lambda>s. \<exists>j \<ge> i. s = Idx j) (diff_elems V [] i xs ys)"
proof (induction xs arbitrary: i ys)
  case Nil
  show ?case by (auto simp: starts_def indexed_from_paths)
next
  case (Cons x xs)
  show ?case
  proof (cases ys)
    case Nil
    then show ?thesis
      using indexed_from_paths [of i "x # xs"] by (auto simp: starts_def simp del: indexed_from.simps)
  next
    case (Cons y ys')
    have 1: "starts (\<lambda>s. \<exists>j \<ge> i. s = Idx j) (diff_elems V [] (i + 1) xs ys')"
      by (rule starts_mono [OF Cons.IH]) auto
    have 2: "starts (\<lambda>s. \<exists>j \<ge> i. s = Idx j) (diff_at V [Idx i] x y)"
      using diff_at_rel [of V "[Idx i]" x y] by (simp add: starts_pre_diff)
    show ?thesis using 1 2 Cons by simp
  qed
qed

lemma inner_diff_at: "inner (diff_at V [] p c)"
proof (cases p)
  case (JDict m)
  show ?thesis
  proof (cases c)
    case (JDict n)
    have "starts (\<lambda>s. True) (diff_keys V [] m n)"
      by (rule starts_mono [OF starts_diff_keys]) simp
    moreover have "starts (\<lambda>s. True) (no_diff\<lparr>added := added_keys [] m n\<rparr>)"
      by (rule starts_mono [OF starts_added_keys]) simp
    ultimately show ?thesis
      using \<open>p = JDict m\<close> JDict by (auto intro: starts_inner [of "\<lambda>s. True"])
  qed (simp_all add: JDict inner_def)
next
  case (JList xs)
  show ?thesis
  proof (cases c)
    case (JList ys)
    have "starts (\<lambda>s. True) (diff_elems V [] 0 xs ys)"
      by (rule starts_mono [OF starts_diff_elems]) simp
    then show ?thesis
      using \<open>p = JList xs\<close> JList by (auto intro: starts_inner [of "\<lambda>s. True"])
  qed (simp_all add: JList inner_def)
qed (simp_all add: inner_def)

lemma sub_entries_simps [simp]:
  "sub_entries s [] = []"
  "sub_entries s (([], x) # es) = sub_entries s es"
  "sub_entries s ((s' # p, x) # es) =
     (if s' = s then (p, x) # sub_entries s es else sub_entries s es)"
  by (simp_all add: sub_entries_def List.map_filter_simps)

lemma sub_entries_append [simp]:
  "sub_entries s (es @ fs) = sub_entries s es @ sub_entries s fs"
  by (simp add: sub_entries_def List.map_filter_def)

lemma sub_entries_pre [simp]:
  "sub_entries s (pre_entries (s' # q) es) = (if s' = s then pre_entries q es else [])"
  by (induction es) auto

lemma sub_entries_mem: "p \<in> fst ` set (sub_entries s es) \<longleftrightarrow> s # p \<in> fst ` set es"
proof (induction es)
  case Nil
  show ?case by simp
next
  case (Cons e es)
  obtain q x where e: "e = (q, x)" by (cases e)
  show ?case using Cons by (cases q) (auto simp: e)
qed

lemma sub_entries_none:
  "(\<And>p. s # p \<notin> fst ` set es) \<Longrightarrow> sub_entries s es = []"
proof (induction es)
  case Nil
  show ?case by simp
next
  case (Cons e es)
  obtain q x where e: "e = (q, x)" by (cases e)
  have "sub_entries s es = []" using Cons by auto
  then show ?case using Cons.prems by (cases q) (auto simp: e)
qed

lemma sub_diff_simps [simp]:
  "sub_diff s no_diff = no_diff"
  "sub_diff s (join d e) = join (sub_diff s d) (sub_diff s e)"
  "sub_diff s (pre_diff (s' # q) d) = (if s' = s then pre_diff q d else no_diff)"
  "sub_diff s (no_diff\<lparr>added := es\<rparr>) = no_diff\<lparr>added := sub_entries s es\<rparr>"
  "sub_diff s (no_diff\<lparr>removed := es\<rparr>) = no_diff\<lparr>removed := sub_entries s es\<rparr>"
  "sub_diff s (no_diff\<lparr>changed := cs\<rparr>) = no_diff\<lparr>changed := sub_entries s cs\<rparr>"
  "sub_diff s (no_diff\<lparr>list_added := es\<rparr>) = no_diff\<lparr>list_added := sub_entries s es\<rparr>"
  "sub_diff s (no_diff\<lparr>list_removed := es\<rparr>) = no_diff\<lparr>list_removed := sub_entries s es\<rparr>"
  by (simp_all add: sub_diff_def join_def no_diff_def pre_diff_def)

lemma sub_diff_fields [simp]:
  "added (sub_diff s d) = sub_entries s (added d)"
  "removed (sub_diff s d) = sub_entries s (removed d)"
  "changed (sub_diff s d) = sub_entries s (changed d)"
  "list_added (sub_diff s d) = sub_entries s (list_added d)"
  "list_removed (sub_diff s d) = sub_entries s (list_removed d)"
  by (simp_all add: sub_diff_def)

lemma starts_sub_diff:
  assumes "starts P d" and "\<not> P s"
  shows "sub_diff s d = no_diff"
proof -
  have "s # p \<notin> paths_of d" for p
    using assms by (auto simp: starts_def)
  then show ?thesis
    by (simp add: sub_diff_def no_diff_def paths_of_def sub_entries_none)
qed

lemma sub_diff_keys:
  assumes "distinct (map fst m)" and "(k, u) \<in> set m"
  shows "sub_diff (Key k) (diff_keys V [] m n) =
           (case map_of n k of
              None \<Rightarrow> no_diff\<lparr>removed := [([], u)]\<rparr>
            | Some v \<Rightarrow> diff_at V [] u v)"
  using assms
proof (induction m)
  case Nil
  then show ?case by simp
next
  case (Cons e m)
  obtain k0 u0 where e: "e = (k0, u0)" by (cases e)
  show ?case
  proof (cases "k0 = k")
    case True
    then have u: "u0 = u" using Cons.prems e by (auto simp: image_iff)
    have "k \<notin> fst ` set m" using Cons.prems e True by simp
    then have rest: "sub_diff (Key k) (diff_keys V [] m n) = no_diff"
      by (intro starts_sub_diff [OF starts_diff_keys]) auto
    show ?thesis
      using rest diff_at_rel [of V "[Key k]" u]
      by (cases "map_of n k") (simp_all add: e True u)
  next
    case False
    then have "(k, u) \<in> set m" using Cons.prems e by auto
    then have rest: "sub_diff (Key k) (diff_keys V [] m n) =
           (case map_of n k of
              None \<Rightarrow> no_diff\<lparr>removed := [([], u)]\<rparr>
            | Some v \<Rightarrow> diff_at V [] u v)"
      using Cons by simp
    show ?thesis
      using rest False diff_at_rel [of V "[Key k0]" u0]
      by (cases "map_of n k0") (simp_all add: e)
  qed
qed

lemma sub_diff_dict:
  assumes "distinct (map fst m)" and "(k, u) \<in> set m"
  shows "sub_diff (Key k) (diff_at V [] (JDict m) (JDict n)) =
           (case map_of n k of
              None \<Rightarrow> no_diff\<lparr>removed := [([], u)]\<rparr>
            | Some v \<Rightarrow> diff_at V [] u v)"
proof -
  have "k \<in> fst ` set m" using assms(2) by (force simp: image_iff)
  then have "sub_diff (Key k) (no_diff\<lparr>added := added_keys [] m n\<rparr>) = no_diff"
    by (intro starts_sub_diff [OF starts_added_keys]) auto
  then show ?thesis
    using sub_diff_keys [OF assms, of V n] by simp
qed

lemma removed_dict:
  assumes "distinct (map fst m)" and "(k, u) \<in> set m"
  shows "[Key k] \<in> fst ` set (removed (diff_at V [] (JDict m) (JDict n)))
           \<longleftrightarrow> map_of n k = None"
proof -
  let ?D = "diff_at V [] (JDict m) (JDict n)"
  have "[Key k] \<in> fst ` set (removed ?D) \<longleftrightarrow> [] \<in> fst ` set (removed (sub_diff (Key k) ?D))"
    by (simp add: sub_entries_mem)
  also have "\<dots> \<longleftrightarrow> map_of n k = None"
  proof (cases "map_of n k")
    case None
    then show ?thesis unfolding sub_diff_dict [OF assms] by (simp add: no_diff_def)
  next
    case (Some v)
    have "[] \<notin> fst ` set (removed (diff_at V [] u v))"
      using inner_diff_at [of V u v] by (simp add: inner_def member_paths_def)
    then show ?thesis unfolding sub_diff_dict [OF assms] using Some by simp
  qed
  finally show ?thesis .
qed

lemma added_items_simps [simp]:
  "added_items no_diff = []"
  "added_items (join d e) = added_items d @ added_items e"
  by (simp_all add: added_items_def List.map_filter_def)

lemma added_elems_simps [simp]:
  "added_elems no_diff = []"
  "added_elems (join d e) = added_elems d @ added_elems e"
  by (simp_all add: added_elems_def)

lemma added_items_removed [simp]: "added_items (no_diff\<lparr>removed := es\<rparr>) = []"
  by (simp add: added_items_def no_diff_def List.map_filter_simps)

lemma added_elems_list_removed [simp]: "added_elems (no_diff\<lparr>list_removed := es\<rparr>) = []"
  by (simp add: added_elems_def no_diff_def)

lemma key_of_deep: "p \<noteq> [] \<Longrightarrow> key_of (s # p) = None"
  by (cases s; cases p) simp_all

lemma is_idx_deep: "p \<noteq> [] \<Longrightarrow> \<not> is_idx (s # p)"
  by (cases s; cases p) simp_all

lemma added_items_pre:
  assumes "inner d"
  shows "added_items (pre_diff [s] d) = []"
proof -
  have "\<forall>e \<in> set (added d). fst e \<noteq> []"
    using assms by (fastforce simp: inner_def member_paths_def image_iff)
  then have "List.map_filter (\<lambda>(p, v). map_option (\<lambda>k. (k, v)) (key_of p))
               (pre_entries [s] es) = []" if "set es \<subseteq> set (added d)" for es
    using that by (induction es) (auto simp: List.map_filter_simps key_of_deep)
  then show ?thesis by (simp add: added_items_def pre_diff_def)
qed

lemma added_elems_pre:
  assumes "inner d"
  shows "added_elems (pre_diff [s] d) = []"
proof -
  have "\<forall>e \<in> set (list_added d). fst e \<noteq> []"
    using assms by (fastforce simp: inner_def member_paths_def image_iff)
  then have "filter (\<lambda>(p, v). is_idx p) (pre_entries [s] es) = []"
    if "set es \<subseteq> set (list_added d)" for es
    using that by (induction es) (auto simp: is_idx_deep)
  then show ?thesis by (simp add: added_elems_def pre_diff_def)
qed

lemma added_items_diff_keys: "added_items (diff_keys V [] m n) = []"
proof (induction m)
  case Nil
  show ?case by simp
next
  case (Cons e m)
  obtain k u where e: "e = (k, u)" by (cases e)
  show ?case
    using Cons diff_at_rel [of V "[Key k]" u] added_items_pre [OF inner_diff_at]
    by (cases "map_of n k") (simp_all add: e)
qed

lemma added_items_added_keys:
  "added_items (no_diff\<lparr>added := added_keys [] m n\<rparr>) = filter (\<lambda>(k, v). map_of m k = None) n"
  by (induction n) (auto simp: added_items_def added_keys_def no_diff_def List.map_filter_simps)

lemma added_elems_indexed_from:
  "added_elems (no_diff\<lparr>list_added := indexed_from [] i ys\<rparr>) = ys"
  by (induction ys arbitrary: i) (auto simp: added_elems_def no_diff_def)

lemma patch_items_dict:
  assumes "distinct (map fst m)" and "set m' \<subseteq> set m"
  shows "patch_items (diff_at V [] (JDict m) (JDict n)) m' =
           concat (map (\<lambda>(k, u). case map_of n k of
                                    None \<Rightarrow> []
                                  | Some v \<Rightarrow> [(k, patch (diff_at V [] u v) u)]) m')"
  using assms(2)
proof (induction m')
  case Nil
  show ?case by simp
next
  case (Cons e m')
  obtain k u where e: "e = (k, u)" by (cases e)
  have mem: "(k, u) \<in> set m" using Cons.prems e by simp
  have rest: "patch_items (diff_at V [] (JDict m) (JDict n)) m' =
           concat (map (\<lambda>(k, u). case map_of n k of
                                    None \<Rightarrow> []
                                  | Some v \<Rightarrow> [(k, patch (diff_at V [] u v) u)]) m')"
    using Cons by simp
  show ?case
    unfolding e patch_items.simps removed_dict [OF assms(1) mem] sub_diff_dict [OF assms(1) mem] rest
    by (cases "map_of n k") simp_all
qed

lemma patch_elems_all_removed:
  "(\<And>j. j < length xs \<Longrightarrow> [Idx (i + j)] \<in> fst ` set (list_removed d))
     \<Longrightarrow> patch_elems d i xs = []"
proof (induction xs arbitrary: i)
  case Nil
  show ?case by simp
next
  case (Cons x xs)
  have "[Idx i] \<in> fst ` set (list_removed d)" using Cons.prems [of 0] by simp
  moreover have "patch_elems d (i + 1) xs = []"
  proof (rule Cons.IH)
    fix j assume "j < length xs"
    then show "[Idx (i + 1 + j)] \<in> fst ` set (list_removed d)"
      using Cons.prems [of "Suc j"] by simp
  qed
  ultimately show ?case by simp
qed

lemma list_all2_json_eq_refl:
  "(\<And>y. y \<in> set ys \<Longrightarrow> wf_json y) \<Longrightarrow> list_all2 (json_eq V) ys ys"
  by (simp add: list_all2_same json_eq_refl)

lemma patch_list_node:
  assumes elems: "\<And>x y. x \<in> set xs \<Longrightarrow> wf_json x \<Longrightarrow> wf_json y
                    \<Longrightarrow> json_eq V (patch (diff_at V [] x y) x) y"
    and wf: "\<And>x. x \<in> set xs \<Longrightarrow> wf_json x" "\<And>y. y \<in> set ys \<Longrightarrow> wf_json y"
    and early: "starts (\<lambda>s. \<exists>j < i. s = Idx j) E" "added_elems E = []"
  shows "list_all2 (json_eq V)
           (patch_elems (join E (diff_elems V [] i xs ys)) i xs
            @ added_elems (join E (diff_elems V [] i xs ys))) ys"
  using assms
proof (induction xs arbitrary: ys i E)
  case Nil
  show ?case
    using Nil.prems(3) Nil.prems(5)
    by (simp add: added_elems_indexed_from list_all2_json_eq_refl)
next
  case (Cons x xs)
  show ?case
  proof (cases ys)
    case Nil
    let ?D = "join E (diff_elems V [] i (x # xs) [])"
    have "[Idx (i + j)] \<in> fst ` set (list_removed ?D)" if "j < length (x # xs)" for j
    proof -
      have "[Idx (i + j)] \<in> fst ` set (indexed_from [] i (x # xs))"
        unfolding indexed_from_paths using that by auto
      then show ?thesis by (simp del: indexed_from.simps add: image_Un)
    qed
    then have "patch_elems ?D i (x # xs) = []"
      by (rule patch_elems_all_removed)
    then show ?thesis
      using Nil Cons.prems(5) by (simp del: patch_elems.simps)
  next
    case (Cons y ys')
    let ?X = "pre_diff [Idx i] (diff_at V [] x y)"
    let ?R = "diff_elems V [] (Suc i) xs ys'"
    let ?D = "join E (diff_elems V [] i (x # xs) ys)"
    let ?E' = "join E ?X"
    have D: "?D = join ?E' ?R"
      using Cons diff_at_rel [of V "[Idx i]" x y] by simp
    have subE: "sub_diff (Idx i) E = no_diff"
      by (rule starts_sub_diff [OF Cons.prems(4)]) simp
    have subR: "sub_diff (Idx i) ?R = no_diff"
      by (rule starts_sub_diff [OF starts_diff_elems]) simp
    have sub: "sub_diff (Idx i) ?D = diff_at V [] x y"
      unfolding D by (simp add: subE subR)
    have "[] \<notin> fst ` set (list_removed (sub_diff (Idx i) ?D))"
      unfolding sub using inner_diff_at [of V x y] by (simp add: inner_def member_paths_def)
    moreover have "[Idx i] \<in> fst ` set (list_removed ?D)
        \<longleftrightarrow> [] \<in> fst ` set (list_removed (sub_diff (Idx i) ?D))"
      by (simp only: sub_diff_fields sub_entries_mem)
    ultimately have keep: "[Idx i] \<notin> fst ` set (list_removed ?D)"
      by blast
    have head: "json_eq V (patch (diff_at V [] x y) x) y"
      using Cons.prems(1) [of x y] Cons.prems(2) [of x] Cons.prems(3) [of y] Cons by simp
    have early': "starts (\<lambda>s. \<exists>j < Suc i. s = Idx j) ?E'" "added_elems ?E' = []"
    proof -
      have "starts (\<lambda>s. \<exists>j < Suc i. s = Idx j) E"
        by (rule starts_mono [OF Cons.prems(4)]) auto
      moreover have "starts (\<lambda>s. \<exists>j < Suc i. s = Idx j) ?X"
        by (rule starts_pre_diff) simp
      ultimately show "starts (\<lambda>s. \<exists>j < Suc i. s = Idx j) ?E'" by simp
      show "added_elems ?E' = []"
        using Cons.prems(5) added_elems_pre [OF inner_diff_at, of "Idx i" V x y] by simp
    qed
    have tail: "list_all2 (json_eq V)
           (patch_elems (join ?E' ?R) (Suc i) xs @ added_elems (join ?E' ?R)) ys'"
    proof (rule Cons.IH [OF _ _ _ early'])
      show "json_eq V (patch (diff_at V [] x' y') x') y'"
        if "x' \<in> set xs" "wf_json x'" "wf_json y'" for x' y'
        using that Cons.prems(1) [of x' y'] by simp
      show "wf_json x'" if "x' \<in> set xs" for x'
        using that Cons.prems(2) [of x'] by simp
      show "wf_json y'" if "y' \<in> set ys'" for y'
        using that Cons.prems(3) [of y'] Cons by simp
    qed
    have "patch_elems ?D i (x # xs) = patch (diff_at V [] x y) x # patch_elems ?D (Suc i) xs"
      using keep sub by simp
    then show ?thesis
      using head tail Cons unfolding D [symmetric] by simp
  qed
qed

lemma kept_mem:
  "(k, w) \<in> set (concat (map (\<lambda>(k, u). case f k of None \<Rightarrow> [] | Some v \<Rightarrow> [(k, g u v)]) m))
     \<longleftrightarrow> (\<exists>u v. (k, u) \<in> set m \<and> f k = Some v \<and> w = g u v)"
proof (induction m)
  case Nil
  show ?case by simp
next
  case (Cons e m)
  obtain k0 u0 where e: "e = (k0, u0)" by (cases e)
  show ?case using Cons by (cases "f k0") (auto simp: e)
qed

lemma patch_changed: "patch (no_diff\<lparr>changed := [([], p, c)]\<rparr>) p = c"
  by (cases p) (simp_all add: no_diff_def)

lemma patch_dict_node:
  assumes vals: "\<And>k u v. (k, u) \<in> set m \<Longrightarrow> wf_json u \<Longrightarrow> wf_json v
                    \<Longrightarrow> json_eq V (patch (diff_at V [] u v) u) v"
    and wf: "wf_json (JDict m)" "wf_json (JDict n)"
  shows "json_eq V (patch (diff_at V [] (JDict m) (JDict n)) (JDict m)) (JDict n)"
proof -
  let ?D = "diff_at V [] (JDict m) (JDict n)"
  let ?kept = "concat (map (\<lambda>(k, u). case map_of n k of
                                    None \<Rightarrow> []
                                  | Some v \<Rightarrow> [(k, patch (diff_at V [] u v) u)]) m)"
  let ?new = "filter (\<lambda>(k, v). map_of m k = None) n"
  have dm: "distinct (map fst m)" and dn: "distinct (map fst n)"
    using wf by simp_all
  have "starts (\<lambda>s. True) ?D"
    using starts_mono [OF starts_diff_keys [of m V n], of "\<lambda>s. True"]
      starts_mono [OF starts_added_keys [of m n], of "\<lambda>s. True"]
    by simp
  then have root: "map_of (changed ?D) [] = None"
    by (rule starts_changed)
  have items: "patch_items ?D m = ?kept"
    by (rule patch_items_dict [OF dm]) simp
  have new: "added_items ?D = ?new"
    by (simp add: added_items_diff_keys added_items_added_keys)
  have patched: "patch ?D (JDict m) = JDict (?kept @ ?new)"
    using root items new by (simp del: diff_at.simps)
  have kept_mem: "(k, w) \<in> set ?kept \<longleftrightarrow>
      (\<exists>u v. (k, u) \<in> set m \<and> map_of n k = Some v \<and> w = patch (diff_at V [] u v) u)" for k w
    by (rule kept_mem)
  have keys: "fst ` set (?kept @ ?new) = fst ` set n"
  proof (intro equalityI subsetI)
    fix k assume "k \<in> fst ` set (?kept @ ?new)"
    then obtain e where e: "e \<in> set (?kept @ ?new)" "fst e = k" by (elim imageE) simp
    obtain w where "e = (k, w)" using e(2) by (cases e) simp
    then have "(k, w) \<in> set ?kept \<or> (k, w) \<in> set ?new"
      using e(1) by (simp only: set_append Un_iff)
    then consider u v where "(k, u) \<in> set m" "map_of n k = Some v" | "(k, w) \<in> set n"
      using kept_mem [of k w] by auto
    then show "k \<in> fst ` set n"
    proof cases
      case 1
      then have "(k, v) \<in> set n" by (simp add: map_of_SomeD)
      then show ?thesis by (force simp: image_iff)
    next
      case 2
      then show ?thesis by (force simp: image_iff)
    qed
  next
    fix k assume k: "k \<in> fst ` set n"
    then obtain v where v: "map_of n k = Some v"
      by (cases "map_of n k") (auto simp: map_of_eq_None_iff)
    show "k \<in> fst ` set (?kept @ ?new)"
    proof (cases "map_of m k")
      case None
      have "(k, v) \<in> set ?new" using None v by (auto dest: map_of_SomeD)
      then show ?thesis by (force simp: image_iff)
    next
      case (Some u)
      then have "(k, patch (diff_at V [] u v) u) \<in> set ?kept"
        using v kept_mem [of k "patch (diff_at V [] u v) u"] by (auto dest: map_of_SomeD)
      then show ?thesis by (force simp: image_iff)
    qed
  qed
  have each: "case map_of n k of None \<Rightarrow> False | Some v \<Rightarrow> json_eq V w v"
    if "(k, w) \<in> set (?kept @ ?new)" for k w
  proof -
    from that consider "(k, w) \<in> set ?kept" | "(k, w) \<in> set ?new"
      by (simp only: set_append Un_iff) blast
    then show ?thesis
    proof cases
      case 1
      then obtain u v where u: "(k, u) \<in> set m" and v: "map_of n k = Some v"
        and w: "w = patch (diff_at V [] u v) u"
        using kept_mem [of k w] by auto
      have "wf_json u" using u wf(1) by (force simp: image_iff)
      moreover have "wf_json v" using map_of_SomeD [OF v] wf(2) by (force simp: image_iff)
      ultimately show ?thesis using vals [OF u] v w by simp
    next
      case 2
      then have kn: "(k, w) \<in> set n" by simp
      then have "map_of n k = Some w" using dn by simp
      moreover have "wf_json w" using kn wf(2) by (force simp: image_iff)
      ultimately show ?thesis by (simp add: json_eq_refl)
    qed
  qed
  show ?thesis
    unfolding patched using keys each by (auto simp del: set_append set_concat)
qed

lemma patch_diff:
  "wf_json p \<Longrightarrow> wf_json c \<Longrightarrow> json_eq V (patch (diff_at V [] p c) p) c"
proof (induction p arbitrary: c)
  case (JList xs)
  show ?case
  proof (cases c)
    case (JList ys)
    let ?D = "diff_elems V [] 0 xs ys"
    have root: "map_of (changed ?D) [] = None"
      by (rule starts_changed [OF starts_diff_elems])
    have "list_all2 (json_eq V)
           (patch_elems (join no_diff ?D) 0 xs @ added_elems (join no_diff ?D)) ys"
    proof (rule patch_list_node)
      show "json_eq V (patch (diff_at V [] x y) x) y"
        if "x \<in> set xs" "wf_json x" "wf_json y" for x y
        using that JList.IH by simp
      show "wf_json x" if "x \<in> set xs" for x using that JList.prems(1) by simp
      show "wf_json y" if "y \<in> set ys" for y using that JList.prems(2) JList by simp
    qed simp_all
    then show ?thesis using root JList by simp
  qed (use json_eq_refl [OF JList.prems(2), of V] in \<open>simp_all add: patch_changed del: patch.simps\<close>)
next
  case (JDict m)
  show ?case
  proof (cases c)
    case c: (JDict n)
    have "json_eq V (patch (diff_at V [] (JDict m) (JDict n)) (JDict m)) (JDict n)"
    proof (rule patch_dict_node)
      show "json_eq V (patch (diff_at V [] u v) u) v"
        if "(k, u) \<in> set m" "wf_json u" "wf_json v" for k u v
        using that JDict.IH [of "(k, u)" u v] by simp
    qed (use JDict.prems c in simp_all)
    then show ?thesis using c by simp
  qed (use json_eq_refl [OF JDict.prems(2), of V] in \<open>simp_all add: patch_changed del: patch.simps\<close>)
next
  case JNull
  then show ?case
    using json_eq_refl [OF JNull(2), of V] by (simp add: patch_changed no_diff_def)
next
  case (JBool b)
  then show ?case
    using json_eq_refl [OF JBool(2), of V] by (simp add: patch_changed no_diff_def)
next
  case (JInt i)
  then show ?case
    using json_eq_refl [OF JInt(2), of V] by (simp add: patch_changed no_diff_def)
next
  case (JFloat x)
  then show ?case
    using json_eq_refl [OF JFloat(2), of V] by (simp add: patch_changed no_diff_def)
next
  case (JStr s)
  then show ?case
    using json_eq_refl [OF JStr(2), of V] by (simp add: patch_changed no_diff_def)
qed

text \<open>
  Claim C8 (applying the \<open>added\<close>, \<open>removed\<close> and \<open>changed\<close> entries of \<open>diff(A, B)\<close> to
  \<open>A\<close> gives \<open>B\<close>). For \<open>A\<close> = \<^verbatim>\<open>[1,2,3]\<close> and \<open>B\<close> = \<^verbatim>\<open>[1,2]\<close> these three buckets are
  empty, the only entry is in \<open>list_removed\<close>: applying the three leaves \<open>A\<close> as it is, and
  \<open>A\<close> is not \<open>B\<close>.
\<close>

theorem roundtrip_counterexample:
  "added (diff no_float_val (JList [JInt 1, JInt 2, JInt 3]) (JList [JInt 1, JInt 2])) = []
 \<and> removed (diff no_float_val (JList [JInt 1, JInt 2, JInt 3]) (JList [JInt 1, JInt 2])) = []
 \<and> changed (diff no_float_val (JList [JInt 1, JInt 2, JInt 3]) (JList [JInt 1, JInt 2])) = []
 \<and> patch ((diff no_float_val (JList [JInt 1, JInt 2, JInt 3]) (JList [JInt 1, JInt 2]))
             \<lparr>list_added := [], list_removed := []\<rparr>) (JList [JInt 1, JInt 2, JInt 3])
     = JList [JInt 1, JInt 2, JInt 3]
 \<and> \<not> json_eq no_float_val (JList [JInt 1, JInt 2, JInt 3]) (JList [JInt 1, JInt 2])"
  by (simp add: diff_def join_def no_diff_def added_elems_def)

text \<open>
  Claim C8 as amended: applying all five buckets of \<open>diff(A, B)\<close> to \<open>A\<close> (the
  \<open>list_added\<close> and \<open>list_removed\<close> entries too) gives a value structurally identical to
  \<open>B\<close>, for all values \<open>A\<close> and \<open>B\<close> whose dicts have distinct keys.
\<close>

theorem roundtrip:
  assumes "wf_json a" and "wf_json b"
  shows "json_eq V (patch (diff V a b) a) b"
  using patch_diff [OF assms] by (simp add: diff_def)

theorem roundtrip_witness:
  "json_eq no_float_val
     (patch (diff no_float_val
        (JDict [(''a'', JInt 1), (''b'', JList [JInt 2, JDict [(''x'', JNull)], JInt 7]), (''z'', JNull)])
        (JDict [(''c'', JInt 4), (''b'', JList [JInt 2, JDict [(''y'', JNull)], JInt 5, JInt 6]), (''a'', JStr ''q'')]))
        (JDict [(''a'', JInt 1), (''b'', JList [JInt 2, JDict [(''x'', JNull)], JInt 7]), (''z'', JNull)]))
     (JDict [(''c'', JInt 4), (''b'', JList [JInt 2, JDict [(''y'', JNull)], JInt 5, JInt 6]), (''a'', JStr ''q'')])
  \<and> patch (diff no_float_val (JList [JInt 1, JInt 2, JInt 3]) (JList [JInt 1, JInt 2 :: unit json]))
       (JList [JInt 1, JInt 2, JInt 3]) = JList [JInt 1, JInt 2]"
proof -
  let ?a = "JDict [(''a'', JInt 1), (''b'', JList [JInt 2, JDict [(''x'', JNull)], JInt 7]), (''z'', JNull)] :: unit json"
  let ?b = "JDict [(''c'', JInt 4), (''b'', JList [JInt 2, JDict [(''y'', JNull)], JInt 5, JInt 6]), (''a'', JStr ''q'')] :: unit json"
  have w: "wf_json ?a" "wf_json ?b" by simp_all
  have l: "patch (diff no_float_val (JList [JInt 1, JInt 2, JInt 3]) (JList [JInt 1, JInt 2 :: unit json]))
       (JList [JInt 1, JInt 2, JInt 3]) = JList [JInt 1, JInt 2]"
    by (simp add: diff_def join_def no_diff_def added_elems_def sub_diff_def)
  show ?thesis using roundtrip [OF w, of no_float_val] l by simp
qed

end
